theory Spec2Isabelle
  imports Main "HOL-Library.AList"
begin

section \<open>Strings and numbers of the host language\<close>

text \<open>
  Strings are byte lists. Numbers that the code only counts with (ids, lengths, match
  counts) are \<open>nat\<close>; clock readings, HTTP statuses and query parameters are \<open>int\<close>.
  Both are unbounded: the counters of the code are exact up to \<open>2^53\<close>.

  The case mappings of the platform are the Unicode ones. Where the code maps arbitrary
  text (the method filter of a rule), \<open>toUpperCase\<close> is a parameter of the model;
  \<open>ascii_toUpperCase\<close> is what it does on ASCII text, where a byte outside \<open>a..z\<close> is
  left alone. \<open>toLowerCase\<close> is applied to the header names of a fetched response only,
  which are ASCII tokens, and is the ASCII mapping.
\<close>

definition upper_char :: "char \<Rightarrow> char" where
  "upper_char c =
     (let n = (of_char c :: nat) in if 97 \<le> n \<and> n \<le> 122 then char_of (n - 32) else c)"

definition lower_char :: "char \<Rightarrow> char" where
  "lower_char c =
     (let n = (of_char c :: nat) in if 65 \<le> n \<and> n \<le> 90 then char_of (n + 32) else c)"

definition ascii_toUpperCase :: "string \<Rightarrow> string" where
  "ascii_toUpperCase s = map upper_char s"

definition toLowerCase :: "string \<Rightarrow> string" where
  "toLowerCase s = map lower_char s"

text \<open>\<open>s.includes(sub)\<close>: \<open>sub\<close> occurs in \<open>s\<close> as a contiguous block.\<close>

primrec includes_str :: "string \<Rightarrow> string \<Rightarrow> bool" where
  "includes_str [] sub = (sub = [])"
| "includes_str (c # cs) sub = (take (length sub) (c # cs) = sub \<or> includes_str cs sub)"

definition digit_char :: "nat \<Rightarrow> char" where
  "digit_char d = ''0123456789'' ! d"

text \<open>Decimal rendering of a non-negative integer, as a template literal \<open>${n}\<close> prints it.\<close>

function show_nat :: "nat \<Rightarrow> string" where
  "show_nat n = (if n < 10 then [digit_char n] else show_nat (n div 10) @ [digit_char (n mod 10)])"
  by pat_completeness auto
termination
  by (relation "measure (\<lambda>n. n)") auto

declare show_nat.simps [simp del]

text \<open>\<open>xs.slice(-n)\<close> for a positive \<open>n\<close>: the last \<open>n\<close> elements, all of them when there are fewer.\<close>

definition slice_last :: "nat \<Rightarrow> 'a list \<Rightarrow> 'a list" where
  "slice_last n xs = drop (length xs - n) xs"

text \<open>\<open>xs.slice(0, limit)\<close>: a negative \<open>limit\<close> counts from the end of the array.\<close>

definition slice_to :: "int \<Rightarrow> 'a list \<Rightarrow> 'a list" where
  "slice_to limit xs =
     (if 0 \<le> limit then take (nat limit) xs else take (nat (int (length xs) + limit)) xs)"

type_synonym headers = "(string \<times> string) list"

section \<open>The activity recorder (\<open>ActivityRecorder\<close>)\<close>

subsection \<open>Data\<close>

datatype ActivityType =
    network_request | network_response | network_failed
  | console | page_error | navigation | dialog | download

datatype NavigationEvent = load | domcontentloaded | framenavigated

text \<open>The \<open>data\<close> field of an entry: one constructor for each object literal the handlers build.\<close>

datatype ActivityData =
    RequestData string string string headers "string option"
      \<comment> \<open>method, url, resourceType, headers, postData\<close>
  | ResponseData string string string int string headers "int option" "string option"
      \<comment> \<open>method, url, resourceType, status, statusText, headers, duration, responseBody\<close>
  | FailedData string string string "string option"
      \<comment> \<open>method, url, resourceType, failure\<close>
  | ConsoleData string string "(string \<times> int \<times> int) option"
      \<comment> \<open>messageType, text, location (url, lineNumber, columnNumber)\<close>
  | PageErrorData string "string option"
      \<comment> \<open>message, stack\<close>
  | NavigationData string NavigationEvent
      \<comment> \<open>url, eventType\<close>
  | DialogData string string "string option" bool
      \<comment> \<open>dialogType, message, defaultValue, handled\<close>

record ActivityEntry =
  entryId :: nat
  timestamp :: int
  entryType :: ActivityType
  entryData :: ActivityData

record ActivityRecorder =
  entries :: "ActivityEntry list"
  nextId :: nat
  enabled :: bool
  autoStart :: bool
  captureNetworkBodies :: bool
  requestTimings :: "string \<rightharpoonup> int"

text \<open>The field initialisers of the class.\<close>

definition new_ActivityRecorder :: ActivityRecorder where
  "new_ActivityRecorder =
     \<lparr>entries = [], nextId = 1, enabled = False, autoStart = True,
      captureNetworkBodies = False, requestTimings = Map.empty\<rparr>"

definition MAX_ENTRIES :: nat where
  "MAX_ENTRIES = 10000"

definition MAX_RESPONSE_BODY_SIZE :: nat where
  "MAX_RESPONSE_BODY_SIZE = 1024 * 1024"

definition isTextContent :: "string \<Rightarrow> bool" where
  "isTextContent contentType =
     (includes_str contentType ''text'' \<or> includes_str contentType ''json'' \<or>
      includes_str contentType ''javascript'' \<or> includes_str contentType ''xml'')"

subsection \<open>Signals of the page\<close>

record Request =
  req_url :: string
  req_method :: string
  req_resourceType :: string
  req_headers :: headers
  req_postData :: "string option"
  req_failure :: "string option"

text \<open>
  A response signal. \<open>resp_body\<close> is what \<open>response.body()\<close> settles to: \<open>Inl\<close> the text of
  the error it rejects with, \<open>Inr\<close> the buffer, of which the code reads the length in bytes
  and the text that \<open>toString('utf-8')\<close> decodes it to.
\<close>

record Buffer =
  buf_length :: nat
  buf_utf8 :: string

record Response =
  resp_request :: Request
  resp_url :: string
  resp_status :: int
  resp_statusText :: string
  resp_headers :: headers
  resp_body :: "string + Buffer"

record ConsoleMessage =
  msg_type :: string
  msg_text :: string
  msg_location :: "string \<times> int \<times> int"

record Dialog =
  dlg_type :: string
  dlg_message :: string
  dlg_defaultValue :: string

subsection \<open>Recording\<close>

text \<open>
  \<open>attach\<close> registers the handlers below on the page (the signals are the operations of
  \<open>step\<close> further down) and then applies the auto-start setting.
\<close>

definition attach :: "ActivityRecorder \<Rightarrow> ActivityRecorder" where
  "attach s = (if autoStart s then s\<lparr>enabled := True\<rparr> else s)"

text \<open>\<open>addEntry\<close>; \<open>now\<close> is the reading of \<open>Date.now()\<close> in the entry literal.\<close>

definition addEntry ::
  "ActivityType \<Rightarrow> ActivityData \<Rightarrow> int \<Rightarrow> ActivityRecorder \<Rightarrow> ActivityRecorder" where
  "addEntry ty d now s =
     (if \<not> enabled s then s
      else
        let entry = \<lparr>entryId = nextId s, timestamp = now, entryType = ty, entryData = d\<rparr>;
            s1 = s\<lparr>nextId := nextId s + 1, entries := entries s @ [entry]\<rparr>
        in if length (entries s1) > MAX_ENTRIES
           then s1\<lparr>entries := slice_last MAX_ENTRIES (entries s1)\<rparr>
           else s1)"

text \<open>\<open>x || undefined\<close> on an optional string: the empty string is dropped as well.\<close>

definition or_undefined :: "string option \<Rightarrow> string option" where
  "or_undefined x = (case x of None \<Rightarrow> None | Some v \<Rightarrow> if v = [] then None else Some v)"

definition timing_key :: "Request \<Rightarrow> string" where
  "timing_key request = req_url request @ req_method request"

text \<open>\<open>handleRequest\<close>; \<open>t\<close> is the clock reading stored in the table, \<open>now\<close> the one of the entry.\<close>

definition handleRequest :: "Request \<Rightarrow> int \<Rightarrow> int \<Rightarrow> ActivityRecorder \<Rightarrow> ActivityRecorder" where
  "handleRequest request t now s =
     (let key = timing_key request;
          s1 = s\<lparr>requestTimings := (requestTimings s)(key \<mapsto> t)\<rparr>
      in addEntry network_request
           (RequestData (req_method request) (req_url request) (req_resourceType request)
              (req_headers request) (or_undefined (req_postData request)))
           now s1)"

definition captureResponseBody :: "Response \<Rightarrow> string" where
  "captureResponseBody response =
     (case resp_body response of
        Inl e \<Rightarrow> ''[failed to capture: '' @ e @ '']''
      | Inr body \<Rightarrow>
          if buf_length body > MAX_RESPONSE_BODY_SIZE
          then ''[body too large: '' @ show_nat (buf_length body) @ '' bytes]''
          else
            let contentType =
                  (case map_of (resp_headers response) ''content-type'' of
                     None \<Rightarrow> [] | Some v \<Rightarrow> v)
            in if isTextContent contentType then buf_utf8 body
               else ''[binary: '' @ show_nat (buf_length body) @ '' bytes]'')"

text \<open>
  \<open>handleResponse\<close> up to its only suspension point: \<open>None\<close> when it returns at once because
  recording is off, otherwise the payload it will record. \<open>t\<close> is the clock reading of the
  duration; \<open>startTime ? ... : undefined\<close> treats a stored 0 like a missing key.
\<close>

definition response_duration :: "Response \<Rightarrow> int \<Rightarrow> ActivityRecorder \<Rightarrow> int option" where
  "response_duration response t s =
     (case requestTimings s (timing_key (resp_request response)) of
        None \<Rightarrow> None
      | Some startTime \<Rightarrow> if startTime = 0 then None else Some (t - startTime))"

definition response_payload :: "Response \<Rightarrow> int \<Rightarrow> ActivityRecorder \<Rightarrow> ActivityData option" where
  "response_payload response t s =
     (if \<not> enabled s then None
      else
        let request = resp_request response;
            duration = response_duration response t s;
            responseBody =
              (if captureNetworkBodies s then Some (captureResponseBody response) else None)
        in Some (ResponseData (req_method request) (resp_url response)
                   (req_resourceType request) (resp_status response)
                   (resp_statusText response) (resp_headers response) duration responseBody))"

text \<open>\<open>handleResponse\<close> run without another handler in between.\<close>

definition handleResponse :: "Response \<Rightarrow> int \<Rightarrow> int \<Rightarrow> ActivityRecorder \<Rightarrow> ActivityRecorder" where
  "handleResponse response t now s =
     (case response_payload response t s of
        None \<Rightarrow> s
      | Some d \<Rightarrow> addEntry network_response d now s)"

definition handleRequestFailed :: "Request \<Rightarrow> int \<Rightarrow> ActivityRecorder \<Rightarrow> ActivityRecorder" where
  "handleRequestFailed request now s =
     addEntry network_failed
       (FailedData (req_method request) (req_url request) (req_resourceType request)
          (req_failure request))
       now s"

definition handleConsole :: "ConsoleMessage \<Rightarrow> int \<Rightarrow> ActivityRecorder \<Rightarrow> ActivityRecorder" where
  "handleConsole msg now s =
     (let location = msg_location msg
      in addEntry console
           (ConsoleData (msg_type msg) (msg_text msg)
              (if fst location = [] then None else Some location))
           now s)"

definition handlePageError ::
  "string \<Rightarrow> string option \<Rightarrow> int \<Rightarrow> ActivityRecorder \<Rightarrow> ActivityRecorder" where
  "handlePageError message stack now s = addEntry page_error (PageErrorData message stack) now s"

definition handleNavigation ::
  "string \<Rightarrow> NavigationEvent \<Rightarrow> int \<Rightarrow> ActivityRecorder \<Rightarrow> ActivityRecorder" where
  "handleNavigation page_url eventType now s =
     addEntry navigation (NavigationData page_url eventType) now s"

text \<open>\<open>handleDialog\<close>: the entry is added before the dialog is dismissed.\<close>

definition handleDialog :: "Dialog \<Rightarrow> int \<Rightarrow> ActivityRecorder \<Rightarrow> ActivityRecorder" where
  "handleDialog dlg now s =
     addEntry dialog
       (DialogData (dlg_type dlg) (dlg_message dlg)
          (or_undefined (Some (dlg_defaultValue dlg))) False)
       now s"

subsection \<open>Control methods\<close>

text \<open>\<open>start(options)\<close>; the argument is \<open>options.captureNetworkBodies\<close>.\<close>

definition start :: "bool option \<Rightarrow> ActivityRecorder \<Rightarrow> ActivityRecorder" where
  "start opt s =
     s\<lparr>enabled := True,
       captureNetworkBodies := (case opt of None \<Rightarrow> False | Some b \<Rightarrow> b)\<rparr>"

definition stop :: "ActivityRecorder \<Rightarrow> nat \<times> ActivityRecorder" where
  "stop s = (length (entries s), s\<lparr>enabled := False\<rparr>)"

definition clear :: "ActivityRecorder \<Rightarrow> nat \<times> ActivityRecorder" where
  "clear s = (length (entries s), s\<lparr>entries := [], requestTimings := Map.empty\<rparr>)"

definition setAutoStart :: "bool \<Rightarrow> ActivityRecorder \<Rightarrow> ActivityRecorder" where
  "setAutoStart b s = s\<lparr>autoStart := b\<rparr>"

subsection \<open>Query methods\<close>



record ActivityFilter =
  types :: "ActivityType list option"
  since :: "int option"
  limit :: "int option"

record QueryResult =
  q_entries :: "ActivityEntry list"
  q_watermark :: nat
  q_hasMore :: bool

definition getEntries :: "ActivityFilter \<Rightarrow> ActivityRecorder \<Rightarrow> QueryResult" where
  "getEntries flt s =
     (let filtered = entries s;
          filtered = (case since flt of
                        None \<Rightarrow> filtered
                      | Some n \<Rightarrow> filter (\<lambda>e. int (entryId e) > n) filtered);
          filtered = (case types flt of
                        None \<Rightarrow> filtered
                      | Some ts \<Rightarrow>
                          if length ts > 0 then filter (\<lambda>e. entryType e \<in> set ts) filtered
                          else filtered);
          lim = (case limit flt of None \<Rightarrow> 1000 | Some l \<Rightarrow> l);
          hasMore = (int (length filtered) > lim);
          filtered = slice_to lim filtered
      in \<lparr>q_entries = filtered, q_watermark = nextId s - 1, q_hasMore = hasMore\<rparr>)"






subsection \<open>Runs of the recorder\<close>

text \<open>
  Everything that can happen to a recorder between two queries. \<open>Resume\<close> is the rest of a
  \<open>handleResponse\<close> that was suspended in \<open>captureResponseBody\<close> and runs its \<open>addEntry\<close>
  after other handlers had their turn.
\<close>

datatype operation =
    Attach
  | OnRequest Request int int
  | OnResponse Response int int
  | Resume ActivityData int
  | OnRequestFailed Request int
  | OnConsole ConsoleMessage int
  | OnPageError string "string option" int
  | OnNavigation string NavigationEvent int
  | OnDialog Dialog int
  | Start "bool option"
  | Stop
  | Clear
  | SetAutoStart bool

fun step :: "operation \<Rightarrow> ActivityRecorder \<Rightarrow> ActivityRecorder" where
  "step Attach s = attach s"
| "step (OnRequest r t now) s = handleRequest r t now s"
| "step (OnResponse r t now) s = handleResponse r t now s"
| "step (Resume d now) s = addEntry network_response d now s"
| "step (OnRequestFailed r now) s = handleRequestFailed r now s"
| "step (OnConsole m now) s = handleConsole m now s"
| "step (OnPageError m st now) s = handlePageError m st now s"
| "step (OnNavigation u ev now) s = handleNavigation u ev now s"
| "step (OnDialog d now) s = handleDialog d now s"
| "step (Start opt) s = start opt s"
| "step Stop s = snd (stop s)"
| "step Clear s = snd (clear s)"
| "step (SetAutoStart b) s = setAutoStart b s"

fun exec :: "operation list \<Rightarrow> ActivityRecorder \<Rightarrow> ActivityRecorder" where
  "exec [] s = s"
| "exec (x # xs) s = exec xs (step x s)"

subsection \<open>Notions used to state the properties of the recorder\<close>





text \<open>
  The query \<open>{ since: n }\<close>, with no kinds and the default limit, and the union of two
  answers in which an id of the first answer is not repeated.
\<close>

definition query_since :: "int \<Rightarrow> ActivityFilter" where
  "query_since n = \<lparr>types = None, since = Some n, limit = None\<rparr>"

definition union_by_id :: "ActivityEntry list \<Rightarrow> ActivityEntry list \<Rightarrow> ActivityEntry list" where
  "union_by_id xs ys = xs @ filter (\<lambda>e. entryId e \<notin> entryId ` set xs) ys"

text \<open>
  The invariant of the log: the retained ids are the consecutive numbers just below the
  counter, and the log never holds more than the cap.
\<close>

definition log_inv :: "ActivityRecorder \<Rightarrow> bool" where
  "log_inv s \<longleftrightarrow>
     map entryId (entries s) = [nextId s - length (entries s) ..< nextId s]
     \<and> length (entries s) < nextId s \<and> length (entries s) \<le> MAX_ENTRIES"

text \<open>One operation either leaves the counter alone, or hands it to one new entry.\<close>

definition quiet :: "ActivityRecorder \<Rightarrow> ActivityRecorder \<Rightarrow> bool" where
  "quiet s s' \<longleftrightarrow> nextId s' = nextId s \<and> (entries s' = entries s \<or> entries s' = [])"

definition appended :: "ActivityRecorder \<Rightarrow> ActivityRecorder \<Rightarrow> bool" where
  "appended s s' \<longleftrightarrow>
     (\<exists>e. entryId e = nextId s \<and> nextId s' = nextId s + 1
        \<and> entries s' = slice_last MAX_ENTRIES (entries s @ [e]))"

text \<open>Example signals and an example run that fills the log with 1000 entries.\<close>

definition get_x :: Request where
  "get_x = \<lparr>req_url = ''http://localhost/x'', req_method = ''GET'', req_resourceType = ''fetch'',
            req_headers = [], req_postData = None, req_failure = None\<rparr>"


definition busy_log :: ActivityRecorder where
  "busy_log = exec (Start None # replicate 1000 (OnPageError ''boom'' None 7)) new_ActivityRecorder"

section \<open>The interception engine (\<open>InterceptManager\<close>)\<close>

record InterceptResponse =
  status :: "int option"
  body :: "string option"
  headers :: "headers option"
  abort :: "bool option"
  proxyUrl :: "string option"

record InterceptRule =
  rule_id :: string
  urlPattern :: string
  rule_method :: "string option"
  response :: InterceptResponse
  delay :: "int option"
  rule_enabled :: bool
  matchCount :: nat

record AddInterceptRuleOptions =
  opt_id :: "string option"
  opt_urlPattern :: string
  opt_method :: "string option"
  opt_response :: InterceptResponse
  opt_delay :: "int option"
  opt_enabled :: "bool option"

text \<open>
  \<open>rules\<close> is the \<open>Map\<close> of the class, as the list of its (key, value) pairs in insertion
  order: \<open>AList.update\<close> is \<open>Map.set\<close> (a new key goes to the end, a known key keeps its
  place), \<open>AList.delete\<close> is \<open>Map.delete\<close>, \<open>map_of\<close> is \<open>Map.get\<close>.
\<close>

record InterceptManager =
  rules :: "(string \<times> InterceptRule) list"
  im_enabled :: bool
  im_nextId :: nat

definition new_InterceptManager :: InterceptManager where
  "new_InterceptManager = \<lparr>rules = [], im_enabled = True, im_nextId = 1\<rparr>"

datatype error = SyntaxError string | Error string

text \<open>
  The pieces of the platform the engine calls, as parameters: \<open>toUpperCase\<close> is a function
  on strings (a \<open>case_map\<close>); \<open>new RegExp(pattern)\<close> gives
  \<open>None\<close> where the constructor throws and otherwise the \<open>test\<close> function of the expression;
  \<open>new URL(url)\<close> gives \<open>Inl\<close> the text of its error or \<open>Inr (pathname, search)\<close>;
  \<open>fetch(url)\<close> followed by \<open>text()\<close> gives \<open>Inl\<close> the text of the error or \<open>Inr\<close> the
  upstream response.
\<close>

type_synonym regexp = "string \<Rightarrow> (string \<Rightarrow> bool) option"

type_synonym case_map = "string \<Rightarrow> string"

type_synonym url_parser = "string \<Rightarrow> string + (string \<times> string)"

record Upstream =
  up_status :: int
  up_headers :: headers
  up_body :: string

type_synonym fetcher = "string \<Rightarrow> string + Upstream"

text \<open>What a route handler does to the outside, in order.\<close>

datatype effect =
    Continue
  | Abort string
  | Wait int
  | Fetch string
  | Fulfill int "headers option" string

text \<open>\<open>rule.method && rule.method.toUpperCase() !== method.toUpperCase()\<close>\<close>

definition method_differs :: "case_map \<Rightarrow> InterceptRule \<Rightarrow> string \<Rightarrow> bool" where
  "method_differs upper rule method =
     (case rule_method rule of
        None \<Rightarrow> False
      | Some m \<Rightarrow> m \<noteq> [] \<and> upper m \<noteq> upper method)"

text \<open>
  \<open>findMatchingRule\<close>, over the values of the map in order. The rule object it returns is
  returned with its key.
\<close>

fun findMatchingRule ::
  "regexp \<Rightarrow> case_map \<Rightarrow> (string \<times> InterceptRule) list \<Rightarrow> string \<Rightarrow> string
     \<Rightarrow> error + (string \<times> InterceptRule) option" where
  "findMatchingRule rx upper [] url method = Inr None"
| "findMatchingRule rx upper ((k, rule) # rest) url method =
     (if \<not> rule_enabled rule then findMatchingRule rx upper rest url method
      else
        case rx (urlPattern rule) of
          None \<Rightarrow> Inl (SyntaxError (urlPattern rule))
        | Some test \<Rightarrow>
            if \<not> test url then findMatchingRule rx upper rest url method
            else if method_differs upper rule method then findMatchingRule rx upper rest url method
            else Inr (Some (k, rule)))"

definition skipped_headers :: "string list" where
  "skipped_headers = [''content-encoding'', ''transfer-encoding'', ''connection'']"

text \<open>The \<open>forEach\<close> over the upstream headers, filling the object \<open>proxyHeaders\<close>.\<close>

definition copy_headers :: "headers \<Rightarrow> headers" where
  "copy_headers hs =
     fold (\<lambda>(key, value) acc.
             if toLowerCase key \<in> set skipped_headers then acc
             else AList.update key value acc) hs []"

text \<open>The object spread \<open>{ ...a, ...b }\<close>.\<close>

definition spread :: "headers \<Rightarrow> headers \<Rightarrow> headers" where
  "spread a b = fold (\<lambda>(key, value) acc. AList.update key value acc) b a"

definition proxy_error :: "string \<Rightarrow> effect" where
  "proxy_error e = Fulfill 500 None (''Proxy error: '' @ e)"

text \<open>The \<open>try\<close> block of the proxy branch and its \<open>catch\<close>.\<close>

definition proxy_request ::
  "url_parser \<Rightarrow> fetcher \<Rightarrow> string \<Rightarrow> string \<Rightarrow> InterceptResponse \<Rightarrow> effect list" where
  "proxy_request parse fetch url base resp =
     (case parse url of
        Inl e \<Rightarrow> [proxy_error e]
      | Inr (pathname, search) \<Rightarrow>
          let targetUrl = base @ pathname @ search
          in Fetch targetUrl #
             (case fetch targetUrl of
                Inl e \<Rightarrow> [proxy_error e]
              | Inr proxyResponse \<Rightarrow>
                  let proxyHeaders = copy_headers (up_headers proxyResponse);
                      finalHeaders =
                        spread proxyHeaders (case headers resp of None \<Rightarrow> [] | Some h \<Rightarrow> h)
                  in [Fulfill
                        (case status resp of None \<Rightarrow> up_status proxyResponse | Some st \<Rightarrow> st)
                        (Some finalHeaders) (up_body proxyResponse)]))"

definition delay_of :: "InterceptRule \<Rightarrow> effect list" where
  "delay_of rule = (case delay rule of None \<Rightarrow> [] | Some d \<Rightarrow> if d > 0 then [Wait d] else [])"

definition count_match :: "InterceptRule \<Rightarrow> InterceptRule" where
  "count_match rule = rule\<lparr>matchCount := matchCount rule + 1\<rparr>"

text \<open>What the handler does with the rule it found, after counting the match.\<close>

definition resolve :: "url_parser \<Rightarrow> fetcher \<Rightarrow> string \<Rightarrow> InterceptRule \<Rightarrow> effect list" where
  "resolve parse fetch url rule =
     (let resp = response rule
      in delay_of rule @
         (if abort resp = Some True then [Abort ''failed'']
          else
            case or_undefined (proxyUrl resp) of
              Some base \<Rightarrow> proxy_request parse fetch url base resp
            | None \<Rightarrow>
                [Fulfill (case status resp of None \<Rightarrow> 200 | Some st \<Rightarrow> st)
                   (Some (case headers resp of None \<Rightarrow> [] | Some h \<Rightarrow> h))
                   (case body resp of None \<Rightarrow> [] | Some b \<Rightarrow> b)]))"

text \<open>
  \<open>handleRoute\<close>: \<open>Inl\<close> when the promise is rejected, otherwise the effects on the route;
  with it, the engine after the call.
\<close>

definition handleRoute ::
  "regexp \<Rightarrow> case_map \<Rightarrow> url_parser \<Rightarrow> fetcher \<Rightarrow> Request \<Rightarrow> InterceptManager
     \<Rightarrow> (error + effect list) \<times> InterceptManager" where
  "handleRoute rx upper parse fetch request m =
     (let url = req_url request; method = req_method request
      in if \<not> im_enabled m then (Inr [Continue], m)
         else
           case findMatchingRule rx upper (rules m) url method of
             Inl e \<Rightarrow> (Inl e, m)
           | Inr None \<Rightarrow> (Inr [Continue], m)
           | Inr (Some (k, matchingRule)) \<Rightarrow>
               (Inr (resolve parse fetch url matchingRule),
                m\<lparr>rules := AList.map_entry k count_match (rules m)\<rparr>))"

text \<open>\<open>options.id || `rule-${this.nextId++}`\<close>: whether the id is generated, and the id.\<close>

definition generates_id :: "AddInterceptRuleOptions \<Rightarrow> bool" where
  "generates_id options = (or_undefined (opt_id options) = None)"

definition chosen_id :: "AddInterceptRuleOptions \<Rightarrow> InterceptManager \<Rightarrow> string" where
  "chosen_id options m =
     (case or_undefined (opt_id options) of
        Some i \<Rightarrow> i
      | None \<Rightarrow> ''rule-'' @ show_nat (im_nextId m))"

definition addRule ::
  "AddInterceptRuleOptions \<Rightarrow> InterceptManager \<Rightarrow> (error + InterceptRule) \<times> InterceptManager" where
  "addRule options m =
     (let ident = chosen_id options m;
          m1 = (if generates_id options then m\<lparr>im_nextId := im_nextId m + 1\<rparr> else m)
      in if ident \<in> fst ` set (rules m1)
         then (Inl (Error (''Rule with id '' @ [CHR 0x27] @ ident @ [CHR 0x27] @ '' already exists'')), m1)
         else
           let rule = \<lparr>rule_id = ident, urlPattern = opt_urlPattern options,
                       rule_method = opt_method options, response = opt_response options,
                       delay = Some (case opt_delay options of None \<Rightarrow> 0 | Some d \<Rightarrow> d),
                       rule_enabled = (case opt_enabled options of None \<Rightarrow> True | Some b \<Rightarrow> b),
                       matchCount = 0\<rparr>
           in (Inr rule, m1\<lparr>rules := AList.update ident rule (rules m1)\<rparr>))"

definition removeRule :: "string \<Rightarrow> InterceptManager \<Rightarrow> bool \<times> InterceptManager" where
  "removeRule ident m =
     (ident \<in> fst ` set (rules m), m\<lparr>rules := AList.delete ident (rules m)\<rparr>)"

definition getRule :: "string \<Rightarrow> InterceptManager \<Rightarrow> InterceptRule option" where
  "getRule ident m = map_of (rules m) ident"

definition listRules :: "InterceptManager \<Rightarrow> InterceptRule list" where
  "listRules m = map snd (rules m)"

definition clearRules :: "InterceptManager \<Rightarrow> nat \<times> InterceptManager" where
  "clearRules m = (length (rules m), m\<lparr>rules := []\<rparr>)"

definition toggleRule ::
  "string \<Rightarrow> bool \<Rightarrow> InterceptManager \<Rightarrow> (error + InterceptRule) \<times> InterceptManager" where
  "toggleRule ident b m =
     (case map_of (rules m) ident of
        None \<Rightarrow>
          (Inl (Error (''Rule with id '' @ [CHR 0x27] @ ident @ [CHR 0x27] @ '' not found'')), m)
      | Some rule \<Rightarrow>
          (Inr (rule\<lparr>rule_enabled := b\<rparr>),
           m\<lparr>rules := AList.map_entry ident (\<lambda>r. r\<lparr>rule_enabled := b\<rparr>) (rules m)\<rparr>))"

definition setEnabled :: "bool \<Rightarrow> InterceptManager \<Rightarrow> InterceptManager" where
  "setEnabled b m = m\<lparr>im_enabled := b\<rparr>"

record InterceptStatus =
  st_enabled :: bool
  ruleCount :: nat
  totalMatches :: nat

definition getStatus :: "InterceptManager \<Rightarrow> InterceptStatus" where
  "getStatus m =
     \<lparr>st_enabled = im_enabled m, ruleCount = length (rules m),
      totalMatches = fold (\<lambda>rule sum. sum + matchCount rule) (map snd (rules m)) 0\<rparr>"

subsection \<open>The winner as the specification words it\<close>





subsection \<open>Example engines and platform functions\<close>

text \<open>
  A stand-in for the regular expression engine on the patterns of the examples: \<open>.*\<close>
  matches every URL, \<open>(\<close> is rejected by the constructor, and a pattern of literal
  characters matches the URLs that contain it. \<open>parse_demo\<close> and \<open>fetch_demo\<close> know one URL
  each.
\<close>

definition rx_literal :: regexp where
  "rx_literal pattern =
     (if pattern = ''('' then None
      else Some (\<lambda>url. pattern = ''.*'' \<or> includes_str url pattern))"

definition parse_demo :: url_parser where
  "parse_demo url =
     (if url = ''http://localhost/api/users?x=1'' then Inr (''/api/users'', ''?x=1'')
      else Inl ''TypeError: Invalid URL'')"

definition fetch_demo :: fetcher where
  "fetch_demo url =
     (if url = ''http://127.0.0.1:9000/api/users?x=1''
      then Inr \<lparr>up_status = 201,
                up_headers = [(''connection'', ''keep-alive''), (''content-type'', ''text/plain'')],
                up_body = ''hi''\<rparr>
      else Inl ''TypeError: fetch failed'')"

definition synth :: InterceptResponse where
  "synth = \<lparr>status = Some 404, body = Some ''gone'', headers = None, abort = None, proxyUrl = None\<rparr>"

definition to_upstream :: InterceptResponse where
  "to_upstream = \<lparr>status = None, body = None, headers = Some [(''x-proxied'', ''1'')],
                  abort = None, proxyUrl = Some ''http://127.0.0.1:9000''\<rparr>"

definition options_for :: "string option \<Rightarrow> string \<Rightarrow> InterceptResponse \<Rightarrow> AddInterceptRuleOptions" where
  "options_for i pattern resp =
     \<lparr>opt_id = i, opt_urlPattern = pattern, opt_method = None, opt_response = resp,
      opt_delay = None, opt_enabled = None\<rparr>"

definition users_request :: Request where
  "users_request = \<lparr>req_url = ''http://localhost/api/users?x=1'', req_method = ''GET'',
      req_resourceType = ''fetch'', req_headers = [], req_postData = None, req_failure = None\<rparr>"

text \<open>The engine of the precedence scenario: rule \<open>a\<close> (\<open>.*\<close>) added before rule \<open>b\<close> (\<open>/api/\<close>).\<close>

definition two_rules :: InterceptManager where
  "two_rules =
     snd (addRule (options_for (Some ''b'') ''/api/'' to_upstream)
       (snd (addRule (options_for (Some ''a'') ''.*'' synth) new_InterceptManager)))"

definition rule_a :: InterceptRule where
  "rule_a = \<lparr>rule_id = ''a'', urlPattern = ''.*'', rule_method = None, response = synth,
             delay = Some 0, rule_enabled = True, matchCount = 0\<rparr>"

definition rule_b :: InterceptRule where
  "rule_b = \<lparr>rule_id = ''b'', urlPattern = ''/api/'', rule_method = None, response = to_upstream,
             delay = Some 0, rule_enabled = True, matchCount = 0\<rparr>"



definition named_rule_1 :: InterceptManager where
  "named_rule_1 = snd (addRule (options_for (Some ''rule-1'') ''.*'' synth) new_InterceptManager)"

section \<open>Properties of the activity recorder\<close>

subsection \<open>Attaching a page\<close>

text \<open>
  C10. Attaching a page switches recording on exactly when the auto-start flag is set:
  afterwards recording is enabled iff it was enabled before or the flag is set, so attach
  never switches recording off, and switches it on even right after an explicit stop. The
  flag is set in a new recorder and is whatever \<open>setAutoStart\<close> stored last; attach changes
  nothing else.
\<close>

theorem attach_autostart:
  "enabled (attach s) = (autoStart s \<or> enabled s)
   \<and> enabled (attach (snd (stop s))) = autoStart s
   \<and> enabled (attach (setAutoStart True s)) = True
   \<and> enabled (attach (setAutoStart False s)) = enabled s
   \<and> autoStart new_ActivityRecorder = True
   \<and> enabled new_ActivityRecorder = False
   \<and> enabled (attach new_ActivityRecorder) = True
   \<and> attach s = s\<lparr>enabled := autoStart s \<or> enabled s\<rparr>"
  by (simp add: attach_def stop_def setAutoStart_def new_ActivityRecorder_def)

subsection \<open>The shape of one operation and the invariant of the log\<close>

lemma addEntry_disabled: "\<not> enabled s \<Longrightarrow> addEntry ty d now s = s"
  by (simp add: addEntry_def)

lemma addEntry_enabled:
  "enabled s \<Longrightarrow> addEntry ty d now s =
     s\<lparr>nextId := nextId s + 1,
       entries := slice_last MAX_ENTRIES
         (entries s @ [\<lparr>entryId = nextId s, timestamp = now, entryType = ty, entryData = d\<rparr>])\<rparr>"
  by (simp add: addEntry_def Let_def slice_last_def)

lemma addEntry_shape:
  assumes "entries s0 = entries s" "nextId s0 = nextId s"
  shows "quiet s (addEntry ty d now s0) \<or> appended s (addEntry ty d now s0)"
proof (cases "enabled s0")
  case False
  then show ?thesis using assms by (simp add: addEntry_disabled quiet_def)
next
  case True
  let ?e = "\<lparr>entryId = nextId s0, timestamp = now, entryType = ty, entryData = d\<rparr>"
  have "entryId ?e = nextId s \<and> nextId (addEntry ty d now s0) = nextId s + 1
        \<and> entries (addEntry ty d now s0) = slice_last MAX_ENTRIES (entries s @ [?e])"
    using True assms by (simp add: addEntry_enabled)
  then have "appended s (addEntry ty d now s0)"
    unfolding appended_def by blast
  then show ?thesis ..
qed

lemma step_shape: "quiet s (step x s) \<or> appended s (step x s)"
proof (cases x)
  case (OnResponse r t now)
  then show ?thesis
  proof (cases "response_payload r t s")
    case None
    then show ?thesis using OnResponse by (simp add: handleResponse_def quiet_def)
  next
    case (Some a)
    then show ?thesis using OnResponse by (simp add: handleResponse_def addEntry_shape)
  qed
next
  case Attach
  then show ?thesis by (simp add: attach_def quiet_def)
next
  case (Start opt)
  then show ?thesis by (simp add: start_def quiet_def)
next
  case Stop
  then show ?thesis by (simp add: stop_def quiet_def)
next
  case Clear
  then show ?thesis by (simp add: clear_def quiet_def)
next
  case (SetAutoStart b)
  then show ?thesis by (simp add: setAutoStart_def quiet_def)
qed (simp_all add: handleRequest_def Let_def handleRequestFailed_def
      handleConsole_def handlePageError_def handleNavigation_def handleDialog_def
      addEntry_shape)

lemma log_inv_new: "log_inv new_ActivityRecorder"
  by (simp add: log_inv_def new_ActivityRecorder_def)

lemma log_inv_quiet: "log_inv s \<Longrightarrow> quiet s s' \<Longrightarrow> log_inv s'"
  by (auto simp: log_inv_def quiet_def)

lemma log_inv_appended:
  assumes "log_inv s" "appended s s'"
  shows "log_inv s'"
proof -
  from assms(2) obtain e where e: "entryId e = nextId s" "nextId s' = nextId s + 1"
    "entries s' = slice_last MAX_ENTRIES (entries s @ [e])"
    by (auto simp: appended_def)
  let ?n = "length (entries s)"
  have ids: "map entryId (entries s @ [e]) = [nextId s - ?n ..< nextId s + 1]"
    using assms(1) e(1) by (simp add: log_inv_def)
  have "map entryId (entries s') = drop (?n + 1 - MAX_ENTRIES) (map entryId (entries s @ [e]))"
    by (simp only: e(3) slice_last_def drop_map length_append list.size) simp
  then have "map entryId (entries s') = drop (?n + 1 - MAX_ENTRIES) [nextId s - ?n ..< nextId s + 1]"
    by (simp only: ids)
  moreover have "length (entries s') = min (?n + 1) MAX_ENTRIES"
    by (simp add: e(3) slice_last_def MAX_ENTRIES_def)
  ultimately show ?thesis
    using assms(1) e(2) by (auto simp: log_inv_def MAX_ENTRIES_def min_def)
qed

lemma log_inv_step: "log_inv s \<Longrightarrow> log_inv (step x s)"
  using step_shape [of s x] log_inv_quiet log_inv_appended by blast

lemma log_inv_exec: "log_inv s \<Longrightarrow> log_inv (exec xs s)"
  by (induction xs arbitrary: s) (simp_all add: log_inv_step)

lemma log_inv_ids:
  assumes "log_inv s" "e \<in> set (entries s)"
  shows "0 < entryId e \<and> entryId e < nextId s"
proof -
  have "entryId e \<in> set (map entryId (entries s))" using assms(2) by simp
  then have "entryId e \<in> set [nextId s - length (entries s) ..< nextId s]"
    using assms(1) by (simp only: log_inv_def)
  then show ?thesis using assms(1) by (auto simp: log_inv_def)
qed


lemma nextId_step_mono: "nextId s \<le> nextId (step x s)"
  using step_shape [of s x] by (auto simp: quiet_def appended_def)




subsection \<open>Event ids\<close>





subsection \<open>The cap of the log\<close>

text \<open>
  C6. In every state a run of a new recorder reaches, \<open>addEntry\<close> leaves at most 10000
  entries, and their ids are the consecutive numbers up to the watermark. With recording on
  it appends the entry with the next id and drops the first \<open>k\<close> entries of the log, the
  ones with the smallest ids, where \<open>k\<close> is the excess over the cap; the kind of an entry
  plays no part. With recording off it changes nothing. It has no failing branch.
\<close>

theorem record_bounded_fifo:
  "let s = exec ops new_ActivityRecorder;
       s' = addEntry ty d now s;
       e = \<lparr>entryId = nextId s, timestamp = now, entryType = ty, entryData = d\<rparr>;
       k = length (entries s) + 1 - 10000;
       lo = nextId s - length (entries s)
   in length (entries s') \<le> 10000
      \<and> map entryId (entries s') = [nextId s' - length (entries s') ..< nextId s']
      \<and> (if enabled s
          then nextId s' = nextId s + 1
               \<and> entries s' = drop k (entries s @ [e])
               \<and> map entryId (take k (entries s @ [e])) = [lo ..< lo + k]
               \<and> map entryId (entries s') = [lo + k ..< nextId s + 1]
               \<and> s' = s\<lparr>nextId := nextId s + 1, entries := drop k (entries s @ [e])\<rparr>
          else s' = s)"
proof -
  let ?s = "exec ops new_ActivityRecorder"
  let ?s' = "addEntry ty d now ?s"
  let ?e = "\<lparr>entryId = nextId ?s, timestamp = now, entryType = ty, entryData = d\<rparr>"
  let ?k = "length (entries ?s) + 1 - 10000"
  let ?lo = "nextId ?s - length (entries ?s)"
  have inv: "log_inv ?s" by (rule log_inv_exec [OF log_inv_new])
  have inv': "log_inv ?s'"
    using addEntry_shape [of ?s ?s ty d now] inv log_inv_quiet log_inv_appended by blast
  have 1: "length (entries ?s') \<le> 10000"
    using inv' by (simp add: log_inv_def MAX_ENTRIES_def)
  have 2: "map entryId (entries ?s') = [nextId ?s' - length (entries ?s') ..< nextId ?s']"
    using inv' by (simp add: log_inv_def)
  have 3: "if enabled ?s
          then nextId ?s' = nextId ?s + 1
               \<and> entries ?s' = drop ?k (entries ?s @ [?e])
               \<and> map entryId (take ?k (entries ?s @ [?e])) = [?lo ..< ?lo + ?k]
               \<and> map entryId (entries ?s') = [?lo + ?k ..< nextId ?s + 1]
               \<and> ?s' = ?s\<lparr>nextId := nextId ?s + 1, entries := drop ?k (entries ?s @ [?e])\<rparr>
          else ?s' = ?s"
  proof (cases "enabled ?s")
    case False
    then show ?thesis by (simp add: addEntry_disabled)
  next
    case True
    have all: "map entryId (entries ?s @ [?e]) = [?lo ..< nextId ?s + 1]"
      using inv by (simp add: log_inv_def)
    have s': "?s' = ?s\<lparr>nextId := nextId ?s + 1, entries := drop ?k (entries ?s @ [?e])\<rparr>"
      using True by (simp add: addEntry_enabled slice_last_def MAX_ENTRIES_def)
    have len: "length (entries ?s) \<le> 10000" "length (entries ?s) < nextId ?s"
      using inv by (simp_all add: log_inv_def MAX_ENTRIES_def)
    have kle: "?k \<le> 1" using len by linarith
    have lolt: "?lo + ?k \<le> nextId ?s + 1" using len kle by linarith
    have tk: "map entryId (take ?k (entries ?s @ [?e])) = take ?k [?lo ..< nextId ?s + 1]"
      by (simp only: all [symmetric] take_map)
    have dr: "map entryId (drop ?k (entries ?s @ [?e])) = drop ?k [?lo ..< nextId ?s + 1]"
      by (simp only: all [symmetric] drop_map)
    have "take ?k [?lo ..< nextId ?s + 1] = [?lo ..< ?lo + ?k]"
      using lolt by (simp only: take_upt)
    moreover have "drop ?k [?lo ..< nextId ?s + 1] = [?lo + ?k ..< nextId ?s + 1]"
      by (simp only: drop_upt)
    moreover have "nextId ?s' = nextId ?s + 1" "entries ?s' = drop ?k (entries ?s @ [?e])"
      by (simp_all add: s')
    ultimately show ?thesis using True tk dr s' by (simp only: if_True)
  qed
  show ?thesis unfolding Let_def using 1 2 3 by blast
qed

subsection \<open>Request timings\<close>

lemma handleRequest_disabled:
  "\<not> enabled s \<Longrightarrow>
   handleRequest r t now s = s\<lparr>requestTimings := (requestTimings s)(timing_key r \<mapsto> t)\<rparr>"
  by (simp add: handleRequest_def Let_def addEntry_disabled)






text \<open>
  C9 at a concrete input: a recorder that was attached and then stopped receives a request
  signal. No entry is pushed and no id is used, but the start time is stored under the key
  of the request, which the table did not hold before.
\<close>

theorem request_while_disabled_stores_timing:
  "enabled (snd (stop (attach new_ActivityRecorder))) = False
   \<and> requestTimings (snd (stop (attach new_ActivityRecorder))) (timing_key get_x) = None
   \<and> requestTimings
       (handleRequest get_x 1000 1001 (snd (stop (attach new_ActivityRecorder))))
       (timing_key get_x) = Some 1000
   \<and> entries (handleRequest get_x 1000 1001 (snd (stop (attach new_ActivityRecorder)))) = []
   \<and> nextId (handleRequest get_x 1000 1001 (snd (stop (attach new_ActivityRecorder)))) = 1"
  by (simp add: handleRequest_def Let_def addEntry_def stop_def attach_def
        new_ActivityRecorder_def)

subsection \<open>Polling with the watermark\<close>

lemma addEntry_keeps_or_appends:
  assumes "entries s0 = entries s" "nextId s0 = nextId s"
  shows "entries (addEntry ty d now s0) = entries s \<or> appended s (addEntry ty d now s0)"
  using addEntry_shape [OF assms, of ty d now] addEntry_disabled [of s0 ty d now] assms
  by (cases "enabled s0") (auto simp: quiet_def addEntry_enabled appended_def)

lemma step_keeps_or_appends:
  "x \<noteq> Clear \<Longrightarrow> entries (step x s) = entries s \<or> appended s (step x s)"
proof (cases x)
  case (OnResponse r t now)
  show ?thesis
  proof (cases "response_payload r t s")
    case None
    then show ?thesis using OnResponse by (simp add: handleResponse_def)
  next
    case (Some a)
    then show ?thesis using OnResponse by (simp add: handleResponse_def addEntry_keeps_or_appends)
  qed
next
  case Attach
  then show ?thesis by (simp add: attach_def)
next
  case (Start opt)
  then show ?thesis by (simp add: start_def)
next
  case Stop
  then show ?thesis by (simp add: stop_def)
next
  case (SetAutoStart b)
  then show ?thesis by (simp add: setAutoStart_def)
qed (simp_all add: handleRequest_def Let_def handleRequestFailed_def
      handleConsole_def handlePageError_def handleNavigation_def handleDialog_def
      addEntry_keeps_or_appends)

lemma step_extends:
  assumes "x \<noteq> Clear" "length (entries (step x s)) < MAX_ENTRIES"
  shows "\<exists>new. entries (step x s) = entries s @ new \<and> (\<forall>e\<in>set new. nextId s \<le> entryId e)"
proof -
  consider "entries (step x s) = entries s" | "appended s (step x s)"
    using step_keeps_or_appends [OF assms(1)] by blast
  then show ?thesis
  proof cases
    case 1
    then show ?thesis by simp
  next
    case 2
    then obtain e where e: "entryId e = nextId s"
      "entries (step x s) = slice_last MAX_ENTRIES (entries s @ [e])"
      by (auto simp: appended_def)
    have "length (entries (step x s)) = min (length (entries s) + 1) MAX_ENTRIES"
      by (simp add: e(2) slice_last_def MAX_ENTRIES_def)
    then have "length (entries s) + 1 \<le> MAX_ENTRIES" using assms(2) by simp
    then have "entries (step x s) = entries s @ [e]"
      by (simp add: e(2) slice_last_def)
    then show ?thesis using e(1) by simp
  qed
qed

lemma length_step_mono:
  assumes "x \<noteq> Clear"
  shows "min (length (entries s)) MAX_ENTRIES \<le> length (entries (step x s))"
proof -
  consider "entries (step x s) = entries s" | "appended s (step x s)"
    using step_keeps_or_appends [OF assms(1)] by blast
  then show ?thesis
  proof cases
    case 1
    then show ?thesis by simp
  next
    case 2
    then obtain e where "entries (step x s) = slice_last MAX_ENTRIES (entries s @ [e])"
      by (auto simp: appended_def)
    then show ?thesis by (simp add: slice_last_def MAX_ENTRIES_def)
  qed
qed

lemma length_exec_mono:
  "Clear \<notin> set xs \<Longrightarrow> min (length (entries s)) MAX_ENTRIES \<le> length (entries (exec xs s))"
proof (induction xs arbitrary: s)
  case Nil
  show ?case by simp
next
  case (Cons x xs)
  have "min (length (entries s)) MAX_ENTRIES \<le> length (entries (step x s))"
    using Cons.prems by (intro length_step_mono) auto
  moreover have "min (length (entries (step x s))) MAX_ENTRIES \<le> length (entries (exec xs (step x s)))"
    using Cons.prems by (intro Cons.IH) auto
  ultimately show ?case by simp
qed

lemma exec_extends:
  "Clear \<notin> set xs \<Longrightarrow> length (entries (exec xs s)) < MAX_ENTRIES \<Longrightarrow>
   \<exists>new. entries (exec xs s) = entries s @ new \<and> (\<forall>e\<in>set new. nextId s \<le> entryId e)"
proof (induction xs arbitrary: s)
  case Nil
  show ?case by simp
next
  case (Cons x xs)
  have nc: "x \<noteq> Clear" "Clear \<notin> set xs" using Cons.prems(1) by auto
  have fin: "length (entries (exec xs (step x s))) < MAX_ENTRIES" using Cons.prems(2) by simp
  obtain new1 where new1: "entries (exec xs (step x s)) = entries (step x s) @ new1"
    "\<forall>e\<in>set new1. nextId (step x s) \<le> entryId e"
    using Cons.IH [OF nc(2) fin] by blast
  have "length (entries (step x s)) < MAX_ENTRIES"
    using length_exec_mono [OF nc(2), of "step x s"] fin by simp
  then obtain new0 where new0: "entries (step x s) = entries s @ new0"
    "\<forall>e\<in>set new0. nextId s \<le> entryId e"
    using step_extends [OF nc(1)] by blast
  have "\<forall>e\<in>set new1. nextId s \<le> entryId e"
    using new1(2) nextId_step_mono [of s x] by fastforce
  then have "entries (exec (x # xs) s) = entries s @ (new0 @ new1)
      \<and> (\<forall>e\<in>set (new0 @ new1). nextId s \<le> entryId e)"
    using new0 new1(1) by auto
  then show ?case by blast
qed

lemma query_all:
  assumes "log_inv s" "length (entries s) \<le> 1000"
  shows "q_entries (getEntries (query_since 0) s) = entries s"
proof -
  have "filter (\<lambda>e. 0 < int (entryId e)) (entries s) = entries s"
    using log_inv_ids [OF assms(1)] by (simp add: filter_id_conv)
  then show ?thesis
    using assms(2) by (simp add: getEntries_def query_since_def Let_def slice_to_def)
qed

lemma query_new:
  assumes "log_inv s1" "entries s2 = entries s1 @ new" "\<forall>e\<in>set new. nextId s1 \<le> entryId e"
    "length (entries s2) \<le> 1000"
  shows "q_entries (getEntries (query_since (int (nextId s1 - 1))) s2) = new"
proof -
  have "\<And>e. e \<in> set (entries s1) \<Longrightarrow> \<not> int (nextId s1 - 1) < int (entryId e)"
  proof -
    fix e assume "e \<in> set (entries s1)"
    then have "entryId e < nextId s1" using log_inv_ids [OF assms(1)] by blast
    then show "\<not> int (nextId s1 - 1) < int (entryId e)" by linarith
  qed
  then have old: "filter (\<lambda>e. int (nextId s1 - 1) < int (entryId e)) (entries s1) = []"
    by (simp add: filter_empty_conv)
  have pos: "0 < nextId s1" using assms(1) by (simp add: log_inv_def)
  have new: "filter (\<lambda>e. int (nextId s1 - 1) < int (entryId e)) new = new"
    using assms(3) pos by (auto simp: filter_id_conv)
  show ?thesis
    using assms(4) old new
    by (simp add: getEntries_def query_since_def Let_def slice_to_def assms(2))
qed

text \<open>
  C4, as the code has it. Take a state reached by a run of a new recorder, query it with
  \<open>since = 0\<close>, let any operations but \<open>clear\<close> follow, and query again with the watermark
  of the first answer. If the log then holds at most 1000 entries (so that the default
  limit cuts nothing, and nothing was evicted on the way), the two answers joined, without
  repeating an id, are the answer of one query with \<open>since = 0\<close> at the later time.
\<close>

theorem poll_union:
  assumes "Clear \<notin> set ops2"
    and "length (entries (exec ops2 (exec ops1 new_ActivityRecorder))) \<le> 1000"
  shows "union_by_id
           (q_entries (getEntries (query_since 0) (exec ops1 new_ActivityRecorder)))
           (q_entries (getEntries
              (query_since (int (q_watermark
                 (getEntries (query_since 0) (exec ops1 new_ActivityRecorder)))))
              (exec ops2 (exec ops1 new_ActivityRecorder))))
         = q_entries (getEntries (query_since 0) (exec ops2 (exec ops1 new_ActivityRecorder)))"
proof -
  let ?s1 = "exec ops1 new_ActivityRecorder"
  let ?s2 = "exec ops2 ?s1"
  have inv1: "log_inv ?s1" by (rule log_inv_exec [OF log_inv_new])
  have inv2: "log_inv ?s2" by (rule log_inv_exec [OF inv1])
  have "length (entries ?s2) < MAX_ENTRIES" using assms(2) by (simp add: MAX_ENTRIES_def)
  then obtain new where new: "entries ?s2 = entries ?s1 @ new"
    "\<forall>e\<in>set new. nextId ?s1 \<le> entryId e"
    using exec_extends [OF assms(1)] by blast
  have len1: "length (entries ?s1) \<le> 1000" using assms(2) new(1) by simp
  have w: "q_watermark (getEntries (query_since 0) ?s1) = nextId ?s1 - 1"
    by (simp add: getEntries_def Let_def)
  have fresh: "filter (\<lambda>e. entryId e \<notin> entryId ` set (entries ?s1)) new = new"
    using new(2) log_inv_ids [OF inv1] by (fastforce simp: filter_id_conv)
  show ?thesis
    by (simp only: w query_all [OF inv1 len1] query_all [OF inv2 assms(2)]
          query_new [OF inv1 new assms(2)] union_by_id_def fresh new(1))
qed

text \<open>
  An instance: one entry before the first query, one more and a stop before the second.
\<close>

theorem poll_union_witness:
  "Clear \<notin> set [OnPageError ''late'' None 8, Stop]
   \<and> union_by_id
       (q_entries (getEntries (query_since 0)
          (exec [Attach, OnPageError ''boom'' None 7] new_ActivityRecorder)))
       (q_entries (getEntries
          (query_since (int (q_watermark (getEntries (query_since 0)
             (exec [Attach, OnPageError ''boom'' None 7] new_ActivityRecorder)))))
          (exec [OnPageError ''late'' None 8, Stop]
             (exec [Attach, OnPageError ''boom'' None 7] new_ActivityRecorder))))
     = q_entries (getEntries (query_since 0)
          (exec [OnPageError ''late'' None 8, Stop]
             (exec [Attach, OnPageError ''boom'' None 7] new_ActivityRecorder)))
   \<and> length (q_entries (getEntries (query_since 0)
          (exec [OnPageError ''late'' None 8, Stop]
             (exec [Attach, OnPageError ''boom'' None 7] new_ActivityRecorder)))) = 2"
proof -
  have nc: "Clear \<notin> set [OnPageError ''late'' None 8, Stop]" by simp
  have len: "length (entries (exec [OnPageError ''late'' None 8, Stop]
             (exec [Attach, OnPageError ''boom'' None 7] new_ActivityRecorder))) \<le> 1000"
    by (simp add: attach_def handlePageError_def addEntry_def Let_def stop_def
          new_ActivityRecorder_def MAX_ENTRIES_def)
  have two: "length (q_entries (getEntries (query_since 0)
          (exec [OnPageError ''late'' None 8, Stop]
             (exec [Attach, OnPageError ''boom'' None 7] new_ActivityRecorder)))) = 2"
    by (simp add: attach_def handlePageError_def addEntry_def Let_def stop_def
          new_ActivityRecorder_def MAX_ENTRIES_def getEntries_def query_since_def slice_to_def)
  show ?thesis
    using poll_union [OF nc len] nc two by blast
qed

lemma replicate_page_errors:
  "enabled s \<Longrightarrow> length (entries s) + n \<le> MAX_ENTRIES \<Longrightarrow>
   enabled (exec (replicate n (OnPageError m st t)) s)
   \<and> nextId (exec (replicate n (OnPageError m st t)) s) = nextId s + n
   \<and> length (entries (exec (replicate n (OnPageError m st t)) s)) = length (entries s) + n"
proof (induction n arbitrary: s)
  case 0
  then show ?case by simp
next
  case (Suc n)
  let ?s1 = "handlePageError m st t s"
  have s1: "enabled ?s1" "nextId ?s1 = nextId s + 1" "length (entries ?s1) = length (entries s) + 1"
    using Suc.prems by (simp_all add: handlePageError_def addEntry_enabled slice_last_def)
  have "length (entries ?s1) + n \<le> MAX_ENTRIES" using Suc.prems(2) s1(3) by simp
  from Suc.IH [OF s1(1) this] show ?case by (simp add: s1)
qed

lemma busy_log_facts:
  "enabled busy_log" "nextId busy_log = 1001" "length (entries busy_log) = 1000" "log_inv busy_log"
proof -
  let ?s0 = "start None new_ActivityRecorder"
  have s0: "enabled ?s0" "length (entries ?s0) + 1000 \<le> MAX_ENTRIES" "nextId ?s0 = 1"
    "entries ?s0 = []"
    by (simp_all add: start_def new_ActivityRecorder_def MAX_ENTRIES_def)
  have b: "busy_log = exec (replicate 1000 (OnPageError ''boom'' None 7)) ?s0"
    by (simp add: busy_log_def)
  show "enabled busy_log" "nextId busy_log = 1001" "length (entries busy_log) = 1000"
    using replicate_page_errors [OF s0(1) s0(2), of "''boom''" None 7] s0(3,4)
    by (simp_all add: b)
  show "log_inv busy_log"
    unfolding busy_log_def by (rule log_inv_exec [OF log_inv_new])
qed

text \<open>
  Against C4 as stated: with 1000 entries at the first query and one more at the second,
  nothing is evicted, the two answers together hold 1001 entries, and the single later
  query returns the first 1000 only.
\<close>

theorem poll_union_counterexample:
  "union_by_id
     (q_entries (getEntries (query_since 0) busy_log))
     (q_entries (getEntries
        (query_since (int (q_watermark (getEntries (query_since 0) busy_log))))
        (step (OnPageError ''late'' None 8) busy_log)))
   \<noteq> q_entries (getEntries (query_since 0) (step (OnPageError ''late'' None 8) busy_log))"
proof -
  let ?late = "handlePageError ''late'' None 8 busy_log"
  let ?e = "\<lparr>entryId = 1001, timestamp = 8, entryType = page_error,
             entryData = PageErrorData ''late'' None\<rparr>"
  have late: "entries ?late = entries busy_log @ [?e]"
    using busy_log_facts(1,2,3)
    by (simp add: handlePageError_def addEntry_enabled slice_last_def MAX_ENTRIES_def)
  have q1: "q_entries (getEntries (query_since 0) busy_log) = entries busy_log"
    using busy_log_facts(3,4) by (simp add: query_all)
  have "length (q_entries (getEntries (query_since 0) ?late)) \<le> 1000"
    by (simp add: getEntries_def query_since_def Let_def slice_to_def)
  moreover have "1000 \<le> length (q_entries (getEntries (query_since 0) busy_log))"
    by (simp add: q1 busy_log_facts(3))
  moreover have "q_entries (getEntries
        (query_since (int (q_watermark (getEntries (query_since 0) busy_log)))) ?late) = [?e]"
  proof -
    have w: "int (q_watermark (getEntries (query_since 0) busy_log)) = 1000"
      by (simp add: getEntries_def Let_def busy_log_facts(2))
    have "\<And>e. e \<in> set (entries busy_log) \<Longrightarrow> \<not> 1000 < int (entryId e)"
      using log_inv_ids [OF busy_log_facts(4)] busy_log_facts(2) by fastforce
    then have "filter (\<lambda>e. 1000 < int (entryId e)) (entries busy_log) = []"
      by (simp add: filter_empty_conv)
    then show ?thesis
      by (simp only: w) (simp add: getEntries_def query_since_def Let_def slice_to_def late)
  qed
  moreover have "entryId ?e \<notin> entryId ` set (entries busy_log)"
  proof
    assume "entryId ?e \<in> entryId ` set (entries busy_log)"
    then obtain x where "x \<in> set (entries busy_log)" "entryId x = 1001" by auto
    then show False using log_inv_ids [OF busy_log_facts(4), of x] busy_log_facts(2) by simp
  qed
  ultimately have
    "1001 \<le> length (union_by_id
       (q_entries (getEntries (query_since 0) busy_log))
       (q_entries (getEntries
          (query_since (int (q_watermark (getEntries (query_since 0) busy_log)))) ?late)))"
    by (simp add: union_by_id_def q1)
  with \<open>length (q_entries (getEntries (query_since 0) ?late)) \<le> 1000\<close>
  show ?thesis by (simp only: step.simps) auto
qed

section \<open>Properties of the interception engine\<close>

subsection \<open>The first match wins\<close>







lemma two_rules_eq:
  "two_rules = \<lparr>rules = [(''a'', rule_a), (''b'', rule_b)], im_enabled = True, im_nextId = 1\<rparr>"
  by (simp add: two_rules_def addRule_def Let_def chosen_id_def generates_id_def or_undefined_def
        options_for_def new_InterceptManager_def rule_a_def rule_b_def)











subsection \<open>Match counts\<close>


lemma keys_distinct_kept:
  assumes "distinct (map fst (rules m))"
  shows "distinct (map fst (rules (snd (addRule options m))))"
    and "distinct (map fst (rules (snd (removeRule ident m))))"
    and "distinct (map fst (rules (snd (toggleRule ident b m))))"
    and "distinct (map fst (rules (snd (clearRules m))))"
    and "distinct (map fst (rules (setEnabled b m)))"
    and "distinct (map fst (rules (snd (handleRoute rx upper parse fetch request m))))"
proof -
  show "distinct (map fst (rules (snd (addRule options m))))"
    using assms by (simp add: addRule_def Let_def distinct_update)
  show "distinct (map fst (rules (snd (removeRule ident m))))"
    using assms by (simp add: removeRule_def distinct_delete)
  show "distinct (map fst (rules (snd (toggleRule ident b m))))"
    using assms by (simp add: toggleRule_def distinct_map_entry split: option.split)
  show "distinct (map fst (rules (snd (clearRules m))))"
    by (simp add: clearRules_def)
  show "distinct (map fst (rules (setEnabled b m)))"
    using assms by (simp add: setEnabled_def)
  show "distinct (map fst (rules (snd (handleRoute rx upper parse fetch request m))))"
    using assms
    by (simp add: handleRoute_def Let_def distinct_map_entry split: sum.split option.split)
qed



lemma users_request_sel:
  "req_url users_request = ''http://localhost/api/users?x=1''" "req_method users_request = ''GET''"
  by (simp_all add: users_request_def)

lemma rules_two_rules: "rules two_rules = [(''a'', rule_a), (''b'', rule_b)]"
  by (simp add: two_rules_eq)





subsection \<open>Adding a rule under an id that exists\<close>

text \<open>
  C7, as the code has it. When the id of the new rule (the one of the caller, or the
  generated \<open>rule-n\<close>) is a key of the rule map, \<open>addRule\<close> throws, and the rule map with
  all its rules and the global switch are as before. The counter of generated ids is as
  before when the caller gave the id; it has advanced by one when the id was generated.
\<close>

theorem addRule_duplicate:
  assumes "chosen_id options m \<in> fst ` set (rules m)"
  shows "fst (addRule options m)
           = Inl (Error (''Rule with id '' @ [CHR 0x27] @ chosen_id options m @ [CHR 0x27]
                          @ '' already exists''))
     \<and> rules (snd (addRule options m)) = rules m
     \<and> im_enabled (snd (addRule options m)) = im_enabled m
     \<and> im_nextId (snd (addRule options m))
         = (if generates_id options then im_nextId m + 1 else im_nextId m)
     \<and> snd (addRule options m)
         = (if generates_id options then m\<lparr>im_nextId := im_nextId m + 1\<rparr> else m)"
  using assms by (simp add: addRule_def Let_def)

text \<open>
  An instance: a second rule under the id \<open>a\<close> is refused and the engine is unchanged.
\<close>

theorem addRule_duplicate_witness:
  "chosen_id (options_for (Some ''a'') ''/other/'' synth) two_rules \<in> fst ` set (rules two_rules)
   \<and> snd (addRule (options_for (Some ''a'') ''/other/'' synth) two_rules) = two_rules
   \<and> fst (addRule (options_for (Some ''a'') ''/other/'' synth) two_rules)
       = Inl (Error ''Rule with id 'a' already exists'')"
proof -
  have c: "chosen_id (options_for (Some ''a'') ''/other/'' synth) two_rules = ''a''"
    by (simp add: chosen_id_def options_for_def or_undefined_def)
  have dup: "chosen_id (options_for (Some ''a'') ''/other/'' synth) two_rules
      \<in> fst ` set (rules two_rules)"
    by (simp only: c rules_two_rules) simp
  have g: "\<not> generates_id (options_for (Some ''a'') ''/other/'' synth)"
    by (simp add: generates_id_def options_for_def or_undefined_def)
  show ?thesis
    using addRule_duplicate [OF dup] dup g by (simp add: c)
qed

lemma show_nat_digit: "n < 10 \<Longrightarrow> show_nat n = [digit_char n]"
  by (subst show_nat.simps) simp

text \<open>
  Against C7 as stated: the caller has named a rule \<open>rule-1\<close>; the next rule without an
  id is given the id \<open>rule-1\<close> as well and is refused, and the counter has moved from 1 to
  2.
\<close>

theorem addRule_generated_duplicate_counterexample:
  "im_nextId named_rule_1 = 1
   \<and> chosen_id (options_for None ''/api/'' synth) named_rule_1 = ''rule-1''
   \<and> fst (addRule (options_for None ''/api/'' synth) named_rule_1)
       = Inl (Error ''Rule with id 'rule-1' already exists'')
   \<and> im_nextId (snd (addRule (options_for None ''/api/'' synth) named_rule_1)) = 2
   \<and> snd (addRule (options_for None ''/api/'' synth) named_rule_1) \<noteq> named_rule_1"
proof -
  have one: "show_nat (Suc 0) = ''1''"
    using show_nat_digit [of "Suc 0"] by (simp add: digit_char_def)
  have m: "named_rule_1 =
      \<lparr>rules = [(''rule-1'',
          \<lparr>rule_id = ''rule-1'', urlPattern = ''.*'', rule_method = None, response = synth,
           delay = Some 0, rule_enabled = True, matchCount = 0\<rparr>)],
       im_enabled = True, im_nextId = 1\<rparr>"
    by (simp add: named_rule_1_def addRule_def Let_def chosen_id_def generates_id_def
          or_undefined_def options_for_def new_InterceptManager_def)
  show ?thesis
    by (simp add: m addRule_def Let_def chosen_id_def generates_id_def or_undefined_def
          options_for_def one)
qed

subsection \<open>Proxy rules\<close>

lemma map_of_spread: "map_of (spread a b) = map_of a ++ map_of (rev b)"
  unfolding spread_def
proof (induction b arbitrary: a)
  case Nil
  show ?case by simp
next
  case (Cons p b)
  let ?f = "\<lambda>(key, value) acc. AList.update key value acc"
  obtain k v where p: "p = (k, v)" by (cases p)
  have "fold ?f (p # b) a = fold ?f b (AList.update k v a)" by (simp add: p)
  then have "map_of (fold ?f (p # b) a) = map_of (AList.update k v a) ++ map_of (rev b)"
    by (simp only: Cons.IH)
  also have "\<dots> = (map_of a)(k \<mapsto> v) ++ map_of (rev b)"
    by (simp only: update_conv')
  also have "\<dots> = map_of a ++ map_of (rev (p # b))"
    by (rule ext) (simp add: p map_add_def split: option.split)
  finally show ?case .
qed

lemma map_of_copy_fold:
  "map_of (fold (\<lambda>(key, value) acc.
             if toLowerCase key \<in> set skipped_headers then acc
             else AList.update key value acc) hs acc) key
   = (if toLowerCase key \<in> set skipped_headers then map_of acc key
      else (map_of acc ++ map_of (rev hs)) key)"
proof (induction hs arbitrary: acc)
  case Nil
  show ?case by simp
next
  case (Cons p hs)
  obtain k v where p: "p = (k, v)" by (cases p)
  show ?case
    by (auto simp: p Cons.IH update_conv' map_add_def split: option.split)
qed

lemma map_of_copy_headers:
  "map_of (copy_headers hs) key
   = (if toLowerCase key \<in> set skipped_headers then None else map_of (rev hs) key)"
  by (simp add: copy_headers_def map_of_copy_fold)

lemma resolve_proxy:
  assumes "abort (response rule) \<noteq> Some True"
    and "proxyUrl (response rule) = Some base" and "base \<noteq> []"
  shows "resolve parse fetch url rule
           = delay_of rule @ proxy_request parse fetch url base (response rule)"
  using assms by (simp add: resolve_def Let_def or_undefined_def)

text \<open>
  C8. Let interception be enabled and let the first match of a request be a rule that does
  not abort and names a proxy base. Then \<open>handleRoute\<close> never rejects. When the URL parses
  and the fetch answers, it fetches the base followed by the path and the query of the
  request and fulfils with the upstream body, with the status of the rule if it has one and
  the upstream status otherwise, and with the merged headers. When the fetch fails, or the
  URL does not parse, it fulfils with status 500 and a body that holds the text of the
  error. In the merged headers a header of the rule wins; an upstream header is there only
  if its name, in lower case, is none of \<open>content-encoding\<close>, \<open>transfer-encoding\<close> and
  \<open>connection\<close>.
\<close>

theorem proxy_rule_outcome:
  assumes "im_enabled m"
    and "findMatchingRule rx upper (rules m) (req_url request) (req_method request) = Inr (Some (k, rule))"
    and "abort (response rule) \<noteq> Some True"
    and "proxyUrl (response rule) = Some base" and "base \<noteq> []"
  shows "(\<exists>effects. fst (handleRoute rx upper parse fetch request m) = Inr (delay_of rule @ effects))
     \<and> (\<forall>pathname search up.
           parse (req_url request) = Inr (pathname, search)
           \<and> fetch (base @ pathname @ search) = Inr up
           \<longrightarrow> fst (handleRoute rx upper parse fetch request m)
                = Inr (delay_of rule @
                    [Fetch (base @ pathname @ search),
                     Fulfill (case status (response rule) of None \<Rightarrow> up_status up | Some st \<Rightarrow> st)
                       (Some (spread (copy_headers (up_headers up))
                          (case headers (response rule) of None \<Rightarrow> [] | Some h \<Rightarrow> h)))
                       (up_body up)]))
     \<and> (\<forall>pathname search e.
           parse (req_url request) = Inr (pathname, search)
           \<and> fetch (base @ pathname @ search) = Inl e
           \<longrightarrow> fst (handleRoute rx upper parse fetch request m)
                = Inr (delay_of rule @
                    [Fetch (base @ pathname @ search), Fulfill 500 None (''Proxy error: '' @ e)]))
     \<and> (\<forall>e. parse (req_url request) = Inl e
           \<longrightarrow> fst (handleRoute rx upper parse fetch request m)
                = Inr (delay_of rule @ [Fulfill 500 None (''Proxy error: '' @ e)]))
     \<and> (\<forall>up rule_headers key.
           map_of (spread (copy_headers (up_headers up)) rule_headers) key
             = (case map_of (rev rule_headers) key of
                  Some v \<Rightarrow> Some v
                | None \<Rightarrow>
                    if toLowerCase key \<in> {''content-encoding'', ''transfer-encoding'', ''connection''}
                    then None else map_of (rev (up_headers up)) key))"
proof -
  have hr: "fst (handleRoute rx upper parse fetch request m)
      = Inr (delay_of rule @ proxy_request parse fetch (req_url request) base (response rule))"
    using assms(1,2) resolve_proxy [OF assms(3,4,5)] by (simp add: handleRoute_def Let_def)
  have 1: "\<exists>effects. fst (handleRoute rx upper parse fetch request m) = Inr (delay_of rule @ effects)"
    using hr by blast
  have 5: "\<And>up rule_headers key.
           map_of (spread (copy_headers (up_headers up)) rule_headers) key
             = (case map_of (rev rule_headers) key of
                  Some v \<Rightarrow> Some v
                | None \<Rightarrow>
                    if toLowerCase key \<in> {''content-encoding'', ''transfer-encoding'', ''connection''}
                    then None else map_of (rev (up_headers up)) key)"
    by (simp add: map_of_spread map_add_def map_of_copy_headers skipped_headers_def
          split: option.split)
  have 2: "\<And>pathname search up.
           parse (req_url request) = Inr (pathname, search)
           \<and> fetch (base @ pathname @ search) = Inr up
           \<longrightarrow> fst (handleRoute rx upper parse fetch request m)
                = Inr (delay_of rule @
                    [Fetch (base @ pathname @ search),
                     Fulfill (case status (response rule) of None \<Rightarrow> up_status up | Some st \<Rightarrow> st)
                       (Some (spread (copy_headers (up_headers up))
                          (case headers (response rule) of None \<Rightarrow> [] | Some h \<Rightarrow> h)))
                       (up_body up)])"
    by (simp add: hr proxy_request_def Let_def)
  have 3: "\<And>pathname search e.
           parse (req_url request) = Inr (pathname, search)
           \<and> fetch (base @ pathname @ search) = Inl e
           \<longrightarrow> fst (handleRoute rx upper parse fetch request m)
                = Inr (delay_of rule @
                    [Fetch (base @ pathname @ search), Fulfill 500 None (''Proxy error: '' @ e)])"
    by (simp add: hr proxy_request_def Let_def proxy_error_def)
  have 4: "\<And>e. parse (req_url request) = Inl e
           \<longrightarrow> fst (handleRoute rx upper parse fetch request m)
                = Inr (delay_of rule @ [Fulfill 500 None (''Proxy error: '' @ e)])"
    by (simp add: hr proxy_request_def proxy_error_def)
  show ?thesis
    using 1 2 3 4 5 by blast
qed

lemma demo_headers:
  "spread (copy_headers [(''connection'', ''keep-alive''), (''content-type'', ''text/plain'')])
        [(''x-proxied'', ''1'')]
      = [(''content-type'', ''text/plain''), (''x-proxied'', ''1'')]"
  by code_simp

lemma find_rule_b:
  "findMatchingRule rx_literal ascii_toUpperCase [(''b'', rule_b)] ''http://localhost/api/users?x=1'' ''GET''
      = Inr (Some (''b'', rule_b))"
proof -
  have "includes_str ''http://localhost/api/users?x=1'' ''/api/''" by code_simp
  then show ?thesis by (simp add: rx_literal_def rule_b_def method_differs_def)
qed

text \<open>
  An instance: the engine with rule \<open>b\<close> alone proxies the request to port 9000; the
  upstream \<open>connection\<close> header is dropped and the header of the rule is added.
\<close>

theorem proxy_rule_outcome_witness:
  "fst (handleRoute rx_literal ascii_toUpperCase parse_demo fetch_demo users_request
          (snd (removeRule ''a'' two_rules)))
     = Inr [Fetch ''http://127.0.0.1:9000/api/users?x=1'',
            Fulfill 201 (Some [(''content-type'', ''text/plain''), (''x-proxied'', ''1'')]) ''hi'']"
proof -
  let ?m = "snd (removeRule ''a'' two_rules)"
  let ?up = "\<lparr>up_status = 201,
                up_headers = [(''connection'', ''keep-alive''), (''content-type'', ''text/plain'')],
                up_body = ''hi''\<rparr>"
  have m: "rules ?m = [(''b'', rule_b)]" "im_enabled ?m"
    by (simp_all add: removeRule_def two_rules_eq)
  have f: "findMatchingRule rx_literal ascii_toUpperCase (rules ?m) (req_url users_request)
      (req_method users_request) = Inr (Some (''b'', rule_b))"
    by (simp only: m users_request_sel find_rule_b)
  have a: "abort (response rule_b) \<noteq> Some True" by (simp add: rule_b_def to_upstream_def)
  have p: "proxyUrl (response rule_b) = Some ''http://127.0.0.1:9000''"
    by (simp add: rule_b_def to_upstream_def)
  have ne: "''http://127.0.0.1:9000'' \<noteq> []" by simp
  have d: "delay_of rule_b = []" by (simp add: delay_of_def rule_b_def)
  have pu: "parse_demo (req_url users_request) = Inr (''/api/users'', ''?x=1'')"
    by (simp add: parse_demo_def users_request_def)
  have fu: "fetch_demo (''http://127.0.0.1:9000'' @ ''/api/users'' @ ''?x=1'') = Inr ?up"
    by (simp add: fetch_demo_def)
  have st: "status (response rule_b) = None" "headers (response rule_b) = Some [(''x-proxied'', ''1'')]"
    by (simp_all add: rule_b_def to_upstream_def)
  note th = proxy_rule_outcome [OF m(2) f a p ne, of parse_demo fetch_demo]
  note ok = th [THEN conjunct2, THEN conjunct1, rule_format, OF conjI [OF pu fu]]
  have "fst (handleRoute rx_literal ascii_toUpperCase parse_demo fetch_demo users_request ?m)
      = Inr ([] @ [Fetch (''http://127.0.0.1:9000'' @ ''/api/users'' @ ''?x=1''),
           Fulfill 201
             (Some (spread (copy_headers [(''connection'', ''keep-alive''), (''content-type'', ''text/plain'')])
                [(''x-proxied'', ''1'')]))
             ''hi''])"
    using ok by (simp only: d st option.case Upstream.select_convs)
  then show ?thesis by (simp only: demo_headers) simp
qed

end
